theory Spec2Isabelle
  imports Main "HOL-Library.Sublist"
begin

section \<open>Voxify: vocabulary training and transcript cleaning\<close>

text \<open>
  A shallow embedding of the two functions of \<^verbatim>\<open>transcriptor.py\<close> that carry decision
  logic: \<^verbatim>\<open>train_worker\<close> (inside \<^verbatim>\<open>initial_training_setup\<close>) and
  \<^verbatim>\<open>clean_transcription\<close>, with the two persistence methods they call.

  Python strings are modelled as \<^typ>\<open>string\<close>. The character classes below are
  those of Python on ASCII code points; text outside ASCII is not covered by the model
  (such characters are treated as caseless, non-blank, non-word characters).
\<close>

subsection \<open>Python string primitives\<close>

definition ascii_lowercase :: string where
  "ascii_lowercase = ''abcdefghijklmnopqrstuvwxyz''"

definition ascii_uppercase :: string where
  "ascii_uppercase = ''ABCDEFGHIJKLMNOPQRSTUVWXYZ''"

definition digits :: string where
  "digits = ''0123456789''"

text \<open>\<^verbatim>\<open>str.isspace\<close> on ASCII: code points 9 to 13, 28 to 31 and the blank.\<close>

definition py_isspace :: "char \<Rightarrow> bool" where
  "py_isspace c \<longleftrightarrow> c \<in> set [CHR 0x09, CHR 0x0A, CHR 0x0B, CHR 0x0C, CHR 0x0D,
                              CHR 0x1C, CHR 0x1D, CHR 0x1E, CHR 0x1F, CHR '' '']"

definition lower_char :: "char \<Rightarrow> char" where
  "lower_char c = (case map_of (zip ascii_uppercase ascii_lowercase) c of
                     Some l \<Rightarrow> l | None \<Rightarrow> c)"

definition upper_char :: "char \<Rightarrow> char" where
  "upper_char c = (case map_of (zip ascii_lowercase ascii_uppercase) c of
                     Some u \<Rightarrow> u | None \<Rightarrow> c)"

text \<open>\<^verbatim>\<open>s.lower()\<close>\<close>

definition py_lower :: "string \<Rightarrow> string" where
  "py_lower s = map lower_char s"

text \<open>\<^verbatim>\<open>s.capitalize()\<close>: first character upper-cased, the rest lower-cased.\<close>

fun py_capitalize :: "string \<Rightarrow> string" where
  "py_capitalize [] = []"
| "py_capitalize (c # cs) = upper_char c # map lower_char cs"

text \<open>\<^verbatim>\<open>s.strip(chars)\<close>: drop the characters of \<open>chars\<close> from both ends.\<close>

definition strip_chars :: "string \<Rightarrow> string \<Rightarrow> string" where
  "strip_chars chars s =
     rev (dropWhile (\<lambda>c. c \<in> set chars) (rev (dropWhile (\<lambda>c. c \<in> set chars) s)))"

text \<open>\<^verbatim>\<open>s.strip()\<close>: drop blanks from both ends.\<close>

definition py_strip :: "string \<Rightarrow> string" where
  "py_strip s = rev (dropWhile py_isspace (rev (dropWhile py_isspace s)))"

text \<open>\<^verbatim>\<open>s.split()\<close>: the maximal runs of non-blank characters, in order.\<close>

function py_split :: "string \<Rightarrow> string list" where
  "py_split [] = []"
| "py_split (c # cs) =
     (if py_isspace c then py_split cs
      else takeWhile (\<lambda>x. \<not> py_isspace x) (c # cs)
             # py_split (dropWhile (\<lambda>x. \<not> py_isspace x) cs))"
  by pat_completeness auto
termination
  by (relation "measure length") (auto simp: length_dropWhile_le less_Suc_eq_le)

text \<open>\<^verbatim>\<open>s.split(sep)\<close> for a one-character separator: empty pieces are kept.\<close>

fun split_on :: "char \<Rightarrow> string \<Rightarrow> string list" where
  "split_on sep [] = [[]]"
| "split_on sep (c # cs) =
     (if c = sep then [] # split_on sep cs
      else (case split_on sep cs of
              [] \<Rightarrow> [[c]]
            | p # ps \<Rightarrow> (c # p) # ps))"

text \<open>\<^verbatim>\<open>sep.join(parts)\<close>\<close>

fun py_join :: "string \<Rightarrow> string list \<Rightarrow> string" where
  "py_join sep [] = []"
| "py_join sep [p] = p"
| "py_join sep (p # q # ps) = p @ sep @ py_join sep (q # ps)"

subsection \<open>The application state\<close>

text \<open>
  The fields of the \<^verbatim>\<open>Voxify\<close> object that the two functions read and write, and the
  content of the database file \<^verbatim>\<open>voxify_medical_db.pkl\<close> (\<open>None\<close>: no file).
\<close>

record voxify =
  medical_terms :: "string set"
  medical_phrases :: "string set"
  trained :: bool
  db_file :: "(string set \<times> string set) option"

subsection \<open>\<^verbatim>\<open>clean_transcription\<close>\<close>

text \<open>The filler set of \<^verbatim>\<open>clean_transcription\<close> (lines 545 to 548).\<close>

definition clean_filler_words :: "string set" where
  "clean_filler_words =
     {''um'', ''uh'', ''like'', ''you know'', ''i mean'', ''sort of'', ''kind of'',
      ''basically'', ''actually'', ''literally'', ''right'', ''okay'', ''well'', ''just''}"

text \<open>\<^verbatim>\<open>w.strip('.,;!?')\<close>\<close>

definition strip_punct :: "string \<Rightarrow> string" where
  "strip_punct w = strip_chars ''.,;!?'' w"

text \<open>The strings \<^verbatim>\<open>tri\<close> and \<^verbatim>\<open>bi\<close> built at cursor \<open>i\<close>.\<close>

definition tri_at :: "string list \<Rightarrow> nat \<Rightarrow> string" where
  "tri_at words i =
     strip_punct (words ! i) @ '' '' @ strip_punct (words ! (i + 1)) @ '' ''
       @ strip_punct (words ! (i + 2))"

definition bi_at :: "string list \<Rightarrow> nat \<Rightarrow> string" where
  "bi_at words i = strip_punct (words ! i) @ '' '' @ strip_punct (words ! (i + 1))"

text \<open>
  One iteration of the \<^verbatim>\<open>while i < len(words)\<close> loop, for \<open>i < length words\<close>: the new
  cursor and the new \<^verbatim>\<open>kept\<close> list. The flag \<^verbatim>\<open>matched\<close> of the source is false
  whenever it is read, since both places that set it \<^verbatim>\<open>continue\<close> at once. The
  guards \<^verbatim>\<open>i < len(words) - 2\<close> and \<^verbatim>\<open>i < len(words) - 1\<close> are over Python integers, so
  they are written with the addition on the left. The filler set is a parameter.
\<close>

definition loop_body ::
  "string set \<Rightarrow> voxify \<Rightarrow> string list \<Rightarrow> nat \<Rightarrow> string list \<Rightarrow> nat \<times> string list" where
  "loop_body fillers st words i kept =
     (let word = strip_punct (words ! i) in
      if i + 2 < length words \<and> tri_at words i \<in> medical_phrases st then
        (i + 3, kept @ [word, strip_punct (words ! (i + 1)), strip_punct (words ! (i + 2))])
      else if i + 1 < length words
              \<and> (bi_at words i \<in> medical_terms st \<or> bi_at words i \<in> medical_phrases st) then
        (i + 2, kept @ [word, strip_punct (words ! (i + 1))])
      else
        (i + 1, if word \<in> medical_terms st \<or> word \<notin> fillers then kept @ [word] else kept))"

function scan ::
  "string set \<Rightarrow> voxify \<Rightarrow> string list \<Rightarrow> nat \<Rightarrow> string list \<Rightarrow> string list" where
  "scan fillers st words i kept =
     (if i < length words then
        (case loop_body fillers st words i kept of
           (i', kept') \<Rightarrow> scan fillers st words i' kept')
      else kept)"
  by pat_completeness auto
termination
proof (relation "measure (\<lambda>(fillers, st, words, i, kept). length words - i)")
  show "wf (measure (\<lambda>(fillers, st, words, i, kept). length words - i))"
    by simp
next
  fix fillers :: "string set" and st :: voxify and words :: "string list"
    and i :: nat and kept x :: "string list" and i' :: nat and kept' :: "string list"
  assume less: "i < length words" and body: "(i', kept') = loop_body fillers st words i kept"
  have "i < fst (loop_body fillers st words i kept)"
    by (simp add: loop_body_def Let_def)
  with body have "i < i'"
    by (metis fst_conv)
  with less
  show "((fillers, st, words, i', kept'), (fillers, st, words, i, kept))
          \<in> measure (\<lambda>(fillers, st, words, i, kept). length words - i)"
    by simp
qed

declare scan.simps [simp del]

text \<open>The body of \<^verbatim>\<open>for sentence in sentences\<close> up to the end of the while loop.\<close>

definition sentence_kept :: "string set \<Rightarrow> voxify \<Rightarrow> string \<Rightarrow> string list" where
  "sentence_kept fillers st sentence = scan fillers st (py_split (py_lower sentence)) 0 []"

text \<open>\<^verbatim>\<open>[s.strip() for s in text.split('.') if s.strip()]\<close>\<close>

definition sentences_of :: "string \<Rightarrow> string list" where
  "sentences_of text = map py_strip (filter (\<lambda>s. py_strip s \<noteq> []) (split_on CHR ''.'' text))"

text \<open>The list \<^verbatim>\<open>cleaned\<close> after the for loop.\<close>

fun cleaned_of :: "string set \<Rightarrow> voxify \<Rightarrow> string list \<Rightarrow> string list" where
  "cleaned_of fillers st [] = []"
| "cleaned_of fillers st (sentence # rest) =
     (case sentence_kept fillers st sentence of
        [] \<Rightarrow> cleaned_of fillers st rest
      | k # ks \<Rightarrow> py_join '' '' (py_capitalize k # ks) # cleaned_of fillers st rest)"

text \<open>The function with its filler set as a parameter, and the function itself.\<close>

definition clean_with :: "string set \<Rightarrow> voxify \<Rightarrow> string \<Rightarrow> string" where
  "clean_with fillers st text =
     (if \<not> trained st then text
      else (let cleaned = cleaned_of fillers st (sentences_of text) in
            if cleaned \<noteq> [] then py_join ''. '' cleaned @ ''.'' else text))"

definition clean_transcription :: "voxify \<Rightarrow> string \<Rightarrow> string" where
  "clean_transcription st text = clean_with clean_filler_words st text"

subsection \<open>Tokenisation: \<^verbatim>\<open>re.findall(r'\b[a-z]+\b', text)\<close>\<close>

text \<open>
  The character classes of the pattern: \<^verbatim>\<open>[a-z]\<close>, and the word characters \<^verbatim>\<open>\w\<close>
  (letters, digits and the underscore) that decide where \<^verbatim>\<open>\b\<close> matches.
\<close>

definition is_az :: "char \<Rightarrow> bool" where
  "is_az c \<longleftrightarrow> c \<in> set ascii_lowercase"

definition is_word_char :: "char \<Rightarrow> bool" where
  "is_word_char c \<longleftrightarrow> c \<in> set (ascii_lowercase @ ascii_uppercase @ digits @ ''_'')"

text \<open>The character at a position, \<open>None\<close> beyond the end of the string.\<close>

definition char_at :: "string \<Rightarrow> nat \<Rightarrow> char option" where
  "char_at s k = (if k < length s then Some (s ! k) else None)"

text \<open>
  \<^verbatim>\<open>\b\<close> matches between two positions when exactly one of the characters on its two
  sides is a word character; the outside of the string counts as a non-word character.
\<close>

definition word_side :: "char option \<Rightarrow> bool" where
  "word_side x = (case x of None \<Rightarrow> False | Some c \<Rightarrow> is_word_char c)"

definition word_boundary :: "char option \<Rightarrow> char option \<Rightarrow> bool" where
  "word_boundary left right \<longleftrightarrow> word_side left \<noteq> word_side right"

text \<open>
  The greedy \<^verbatim>\<open>[a-z]+\<close> has consumed \<open>k\<close> characters of \<open>s\<close>; the final \<^verbatim>\<open>\b\<close> is tried
  there, and on failure the engine gives one character back, down to one character.
\<close>

fun backtrack :: "string \<Rightarrow> nat \<Rightarrow> nat option" where
  "backtrack s 0 = None"
| "backtrack s (Suc k) =
     (if word_boundary (Some (s ! k)) (char_at s (Suc k)) then Some (Suc k)
      else backtrack s k)"

text \<open>
  A match of the whole pattern starting at the head of \<open>s\<close>, where \<open>prev\<close> is the
  character in front of \<open>s\<close>: the length of the match, if there is one.
\<close>

definition match_here :: "char option \<Rightarrow> string \<Rightarrow> nat option" where
  "match_here prev s =
     (if word_boundary prev (char_at s 0) then backtrack s (length (takeWhile is_az s))
      else None)"

text \<open>
  \<^verbatim>\<open>findall\<close>: scan from the left; at a match, emit it and go on behind it; otherwise
  move one character on.
\<close>

function findall :: "char option \<Rightarrow> string \<Rightarrow> string list" where
  "findall prev [] = []"
| "findall prev (c # cs) =
     (case match_here prev (c # cs) of
        None \<Rightarrow> findall (Some c) cs
      | Some n \<Rightarrow> take n (c # cs) # findall (Some ((c # cs) ! (n - 1))) (drop n (c # cs)))"
  by pat_completeness auto
termination
proof (relation "measure (\<lambda>(prev, s). length s)")
  show "wf (measure (\<lambda>(prev, s). length s))"
    by simp
next
  fix prev :: "char option" and c :: char and cs :: string
  show "((Some c, cs), (prev, c # cs)) \<in> measure (\<lambda>(prev, s). length s)"
    by simp
next
  fix prev :: "char option" and c :: char and cs :: string and n :: nat
  assume m: "match_here prev (c # cs) = Some n"
  have "backtrack s k = Some n \<Longrightarrow> 0 < n" for s k
    by (induction k) (auto split: if_splits)
  with m have "0 < n"
    by (auto simp: match_here_def split: if_splits)
  then show "((Some ((c # cs) ! (n - 1)), drop n (c # cs)), (prev, c # cs))
               \<in> measure (\<lambda>(prev, s). length s)"
    by simp
qed

text \<open>Lines 393 and 394: lower-case the text, then find the tokens.\<close>

definition tokenize :: "string \<Rightarrow> string list" where
  "tokenize text = findall None (py_lower text)"

subsection \<open>\<^verbatim>\<open>train_worker\<close>\<close>

text \<open>
  A reference file found by the three \<^verbatim>\<open>glob\<close> calls: its name, and the text that
  reading it gives. \<open>None\<close> stands for a file whose reading raises: \<^verbatim>\<open>open\<close> or
  \<^verbatim>\<open>read\<close> for a \<^verbatim>\<open>.txt\<close> file (caught by the handler of the loop body), the import
  of \<^verbatim>\<open>docx\<close> or \<^verbatim>\<open>Document(file_path)\<close> for the others (caught, then
  \<^verbatim>\<open>continue\<close>). In both cases the loop goes on with the next file and appends nothing.
\<close>

record ref_file =
  file_name :: string
  content :: "string option"

text \<open>Lines 398 to 402.\<close>

definition bigrams :: "string list \<Rightarrow> string list" where
  "bigrams words = map (\<lambda>i. words ! i @ '' '' @ words ! (i + 1)) [0 ..< length words - 1]"

definition trigrams :: "string list \<Rightarrow> string list" where
  "trigrams words =
     map (\<lambda>i. words ! i @ '' '' @ words ! (i + 1) @ '' '' @ words ! (i + 2))
       [0 ..< length words - 2]"

text \<open>
  The \<^verbatim>\<open>for idx, file_path in enumerate(text_files)\<close> loop, on the three lists
  \<^verbatim>\<open>all_words\<close>, \<^verbatim>\<open>all_bigrams\<close> and \<^verbatim>\<open>all_trigrams\<close>.
\<close>

fun process_files ::
  "ref_file list \<Rightarrow> string list \<times> string list \<times> string list
     \<Rightarrow> string list \<times> string list \<times> string list" where
  "process_files [] acc = acc"
| "process_files (f # fs) (all_words, all_bigrams, all_trigrams) =
     (case content f of
        None \<Rightarrow> process_files fs (all_words, all_bigrams, all_trigrams)
      | Some text \<Rightarrow>
          (let words = tokenize text in
           process_files fs
             (all_words @ words, all_bigrams @ bigrams words, all_trigrams @ trigrams words)))"

text \<open>\<^verbatim>\<open>Counter(xs).items()\<close>: each distinct element with its number of occurrences.\<close>

definition counter_items :: "string list \<Rightarrow> (string \<times> nat) list" where
  "counter_items xs = map (\<lambda>x. (x, count_list xs x)) (remdups xs)"

text \<open>The filler set of \<^verbatim>\<open>train_worker\<close> (lines 413 to 418).\<close>

definition train_filler_words :: "string set" where
  "train_filler_words =
     {''um'', ''uh'', ''like'', ''you'', ''know'', ''mean'', ''just'', ''very'',
      ''really'', ''quite'', ''sort'', ''kind'', ''basically'', ''actually'',
      ''literally'', ''right'', ''okay'', ''well'', ''gonna'', ''the'', ''and'',
      ''for'', ''are'', ''this'', ''that'', ''with'', ''from'', ''have'', ''been''}"

text \<open>
  \<^verbatim>\<open>save_medical_database\<close>: writes both sets to the database file and returns
  \<^verbatim>\<open>True\<close>, or returns \<^verbatim>\<open>False\<close> when the file cannot be written (\<open>disk_ok\<close> false;
  the model takes the failure to happen at \<^verbatim>\<open>open\<close>, before anything is written).
\<close>

definition save_medical_database :: "voxify \<Rightarrow> bool \<Rightarrow> bool \<times> voxify" where
  "save_medical_database st disk_ok =
     (if disk_ok then (True, st\<lparr>db_file := Some (medical_terms st, medical_phrases st)\<rparr>)
      else (False, st))"

text \<open>
  \<^verbatim>\<open>load_medical_database\<close>: \<open>readable\<close> false stands for a file that cannot be
  unpickled.
\<close>

definition load_medical_database :: "voxify \<Rightarrow> bool \<Rightarrow> voxify" where
  "load_medical_database st readable =
     (case db_file st of
        None \<Rightarrow> st\<lparr>trained := False\<rparr>
      | Some (terms, phrases) \<Rightarrow>
          (if readable
           then st\<lparr>medical_terms := terms, medical_phrases := phrases, trained := True\<rparr>
           else st\<lparr>trained := False\<rparr>))"

text \<open>How a training run ends: the three message boxes of \<^verbatim>\<open>train_worker\<close>.\<close>

datatype train_result = NoDocuments | TrainingComplete | SaveFailed

definition train_worker :: "voxify \<Rightarrow> ref_file list \<Rightarrow> bool \<Rightarrow> train_result \<times> voxify" where
  "train_worker st text_files disk_ok =
     (if text_files = [] then (NoDocuments, st)
      else
        (case process_files text_files ([], [], []) of
           (all_words, all_bigrams, all_trigrams) \<Rightarrow>
             (let word_freq = counter_items all_words;
                  bigram_freq = counter_items all_bigrams;
                  trigram_freq = counter_items all_trigrams;
                  st1 = st\<lparr>medical_terms :=
                          set (map fst (filter (\<lambda>(word, count).
                                 3 \<le> count \<and> 3 < length word \<and> word \<notin> train_filler_words)
                               word_freq))\<rparr>;
                  st2 = st1\<lparr>medical_phrases :=
                          set (map fst (filter (\<lambda>(phrase, count). 2 \<le> count) bigram_freq))\<rparr>;
                  st3 = st2\<lparr>medical_phrases := medical_phrases st2 \<union>
                          set (map fst (filter (\<lambda>(phrase, count). 2 \<le> count) trigram_freq))\<rparr>
              in (case save_medical_database st3 disk_ok of
                    (True, st4) \<Rightarrow> (TrainingComplete, st4\<lparr>trained := True\<rparr>)
                  | (False, st4) \<Rightarrow> (SaveFailed, st4)))))"

subsection \<open>Notions used to state the properties of training\<close>

text \<open>The maximal runs of characters that satisfy \<open>P\<close>, in order.\<close>

function runs :: "(char \<Rightarrow> bool) \<Rightarrow> string \<Rightarrow> string list" where
  "runs P [] = []"
| "runs P (c # cs) =
     (if P c then takeWhile P (c # cs) # runs P (dropWhile P cs) else runs P cs)"
  by pat_completeness auto
termination
  by (relation "measure (\<lambda>(P, s). length s)") (auto simp: length_dropWhile_le less_Suc_eq_le)

text \<open>
  Tokenisation as the specification words it: the maximal runs of alphabetic characters
  of the lower-cased text.
\<close>

definition is_alpha :: "char \<Rightarrow> bool" where
  "is_alpha c \<longleftrightarrow> c \<in> set (ascii_lowercase @ ascii_uppercase)"

definition alphabetic_runs :: "string \<Rightarrow> string list" where
  "alphabetic_runs text = runs is_alpha (py_lower text)"

text \<open>
  The maximal runs of word characters (letters, digits, underscore) that consist of the
  letters \<open>a\<close> to \<open>z\<close> only, and these runs for the lower-cased text.
\<close>

definition word_runs_az :: "string \<Rightarrow> string list" where
  "word_runs_az s = filter (list_all is_az) (runs is_word_char s)"

definition letter_words :: "string \<Rightarrow> string list" where
  "letter_words text = word_runs_az (py_lower text)"

text \<open>A token: a non-empty string of the letters \<open>a\<close> to \<open>z\<close>.\<close>

definition is_token :: "string \<Rightarrow> bool" where
  "is_token t \<longleftrightarrow> t \<noteq> [] \<and> list_all is_az t"

text \<open>
  The corpus of a training run: the texts of the files that can be read, and the words,
  bigrams and trigrams of these texts, document by document.
\<close>

definition corpus_texts :: "ref_file list \<Rightarrow> string list" where
  "corpus_texts files = List.map_filter content files"

definition corpus_words :: "ref_file list \<Rightarrow> string list" where
  "corpus_words files = concat (map tokenize (corpus_texts files))"

definition corpus_bigrams :: "ref_file list \<Rightarrow> string list" where
  "corpus_bigrams files = concat (map (\<lambda>text. bigrams (tokenize text)) (corpus_texts files))"

definition corpus_trigrams :: "ref_file list \<Rightarrow> string list" where
  "corpus_trigrams files = concat (map (\<lambda>text. trigrams (tokenize text)) (corpus_texts files))"

subsection \<open>Auxiliary notions for the properties\<close>

text \<open>
  The states \<open>(i, kept)\<close> that the while loop of \<^verbatim>\<open>clean_transcription\<close> passes
  through on a word list, starting from \<open>(0, [])\<close>.
\<close>

inductive reached :: "string set \<Rightarrow> voxify \<Rightarrow> string list \<Rightarrow> nat \<Rightarrow> string list \<Rightarrow> bool"
  for fillers :: "string set" and st :: voxify and words :: "string list" where
  start: "reached fillers st words 0 []"
| step: "reached fillers st words i kept \<Longrightarrow> i < length words \<Longrightarrow>
         loop_body fillers st words i kept = (i', kept') \<Longrightarrow>
         reached fillers st words i' kept'"

text \<open>
  A trigram or bigram match, as the loop tests it, that starts at the earlier word \<open>j\<close>
  and consumes the word at position \<open>i\<close>.
\<close>

definition match_covers :: "voxify \<Rightarrow> string list \<Rightarrow> nat \<Rightarrow> nat \<Rightarrow> bool" where
  "match_covers st words j i \<longleftrightarrow>
     j < i \<and>
     ((j + 2 < length words \<and> tri_at words j \<in> medical_phrases st \<and> i < j + 3)
      \<or> (j + 1 < length words
          \<and> (bi_at words j \<in> medical_terms st \<or> bi_at words j \<in> medical_phrases st)
          \<and> i < j + 2))"

text \<open>The filler set of \<^verbatim>\<open>clean_transcription\<close> without its four two-word entries.\<close>

definition single_word_fillers :: "string set" where
  "single_word_fillers =
     {''um'', ''uh'', ''like'', ''basically'', ''actually'', ''literally'', ''right'',
      ''okay'', ''well'', ''just''}"

subsection \<open>States used in the examples\<close>

text \<open>The state at the very first start: nothing trained, no database file.\<close>

definition first_run :: voxify where
  "first_run = \<lparr>medical_terms = {}, medical_phrases = {}, trained = False, db_file = None\<rparr>"

text \<open>A state after an earlier, successful training run.\<close>

definition prior_vocabulary :: voxify where
  "prior_vocabulary =
     \<lparr>medical_terms = {''diagnosis''}, medical_phrases = {''acute pain''}, trained = True,
      db_file = Some ({''diagnosis''}, {''acute pain''})\<rparr>"

text \<open>A trained state whose vocabulary is empty.\<close>

definition empty_trained :: voxify where
  "empty_trained =
     \<lparr>medical_terms = {}, medical_phrases = {}, trained = True, db_file = Some ({}, {})\<rparr>"

text \<open>The state after training on the document \<open>heart rate is well heart rate is well\<close>.\<close>

definition overlap_vocabulary :: voxify where
  "overlap_vocabulary =
     \<lparr>medical_terms = {},
      medical_phrases = {''heart rate'', ''rate is'', ''is well'', ''heart rate is'', ''rate is well''},
      trained = True,
      db_file = Some ({}, {''heart rate'', ''rate is'', ''is well'', ''heart rate is'', ''rate is well''})\<rparr>"

text \<open>A trained state with one phrase, whose first word is a filler word.\<close>

definition failure_vocabulary :: voxify where
  "failure_vocabulary =
     \<lparr>medical_terms = {}, medical_phrases = {''right heart failure''}, trained = True,
      db_file = Some ({}, {''right heart failure''})\<rparr>"

text \<open>A corpus of two readable files and one that cannot be read, and the state after
  training on it.\<close>

definition chest_corpus :: "ref_file list" where
  "chest_corpus =
     [\<lparr>file_name = ''a.txt'', content = Some ''acute chest pain''\<rparr>,
      \<lparr>file_name = ''b.txt'', content = Some ''Acute chest pain, acute''\<rparr>,
      \<lparr>file_name = ''c.doc'', content = None\<rparr>]"

definition chest_vocabulary :: voxify where
  "chest_vocabulary =
     \<lparr>medical_terms = {''acute''},
      medical_phrases = {''acute chest'', ''chest pain'', ''acute chest pain''},
      trained = True,
      db_file = Some ({''acute''}, {''acute chest'', ''chest pain'', ''acute chest pain''})\<rparr>"

section \<open>Properties\<close>

lemmas char_class_defs =
  py_isspace_def lower_char_def upper_char_def ascii_lowercase_def ascii_uppercase_def
  digits_def is_az_def is_word_char_def

lemmas clean_defs =
  clean_transcription_def clean_with_def sentences_of_def sentence_kept_def py_strip_def
  py_lower_def strip_punct_def strip_chars_def tri_at_def bi_at_def loop_body_def
  clean_filler_words_def

lemmas train_defs =
  train_worker_def tokenize_def py_lower_def match_here_def word_boundary_def word_side_def
  char_at_def
  counter_items_def save_medical_database_def bigrams_def trigrams_def train_filler_words_def

subsection \<open>Training with no usable text\<close>

text \<open>The guard of lines 357 to 363: with no file at all, nothing is touched.\<close>

lemma train_worker_no_files: "train_worker st [] disk_ok = (NoDocuments, st)"
  by (simp add: train_worker_def)

text \<open>
  C1. A training run in which no source yields any text should fail and leave the prior
  vocabulary as it was, in memory and in the database file. The guard only looks at the
  list of files: with one file that cannot be read, the run completes, and both the
  vocabulary in memory and the database file are replaced by empty sets.
\<close>

theorem train_unreadable_corpus_overwrites:
  "train_worker prior_vocabulary [\<lparr>file_name = ''notes.doc'', content = None\<rparr>] True
     = (TrainingComplete, empty_trained)"
  by (simp add: train_worker_def counter_items_def save_medical_database_def
        prior_vocabulary_def empty_trained_def)

subsection \<open>The gate and the fallback of the cleaner\<close>

text \<open>
  C3, as stated: cleaning with an empty vocabulary returns the text unchanged. It fails
  for the state that a training run on the single document \<open>hello\<close> produces: the
  vocabulary is empty, the flag \<^verbatim>\<open>trained\<close> is set, and the filler is removed.
\<close>

theorem clean_empty_vocabulary_counterexample:
  "train_worker first_run [\<lparr>file_name = ''a.txt'', content = Some ''hello''\<rparr>] True
     = (TrainingComplete, empty_trained)
   \<and> medical_terms empty_trained = {} \<and> medical_phrases empty_trained = {}
   \<and> clean_transcription empty_trained ''um hello'' = ''Hello.''"
  by (simp add: train_defs clean_defs char_class_defs scan.simps first_run_def empty_trained_def)

text \<open>
  C3, amended: for every input text, cleaning in a state whose flag \<^verbatim>\<open>trained\<close> is
  false returns the text unchanged, whatever the vocabulary holds.
\<close>

theorem clean_untrained_identity: "\<not> trained st \<Longrightarrow> clean_transcription st text = text"
  by (simp add: clean_transcription_def clean_with_def)

theorem clean_untrained_identity_witness:
  "\<not> trained first_run \<and> clean_transcription first_run ''um hello'' = ''um hello''"
  using clean_untrained_identity [of first_run "''um hello''"]
  by (simp add: first_run_def)

text \<open>
  C8. For every non-empty input text and every state, cleaning never returns the empty
  string; when no sentence survives (the list \<^verbatim>\<open>cleaned\<close> is empty), it returns the
  input text itself.
\<close>

theorem clean_never_empty:
  "text \<noteq> [] \<Longrightarrow>
     clean_transcription st text \<noteq> []
     \<and> (cleaned_of clean_filler_words st (sentences_of text) = []
          \<longrightarrow> clean_transcription st text = text)"
  by (simp add: clean_transcription_def clean_with_def Let_def)

theorem clean_never_empty_witness:
  "''um. well'' \<noteq> [] \<and> trained empty_trained
   \<and> cleaned_of clean_filler_words empty_trained (sentences_of ''um. well'') = []
   \<and> clean_transcription empty_trained ''um. well'' \<noteq> []
   \<and> clean_transcription empty_trained ''um. well'' = ''um. well''"
proof -
  have c: "cleaned_of clean_filler_words empty_trained (sentences_of ''um. well'') = []"
    by (simp add: clean_defs char_class_defs scan.simps empty_trained_def)
  have t: "trained empty_trained"
    by (simp add: empty_trained_def)
  show ?thesis
    using clean_never_empty [of "''um. well''" empty_trained] c t by simp
qed

subsection \<open>The while loop only appends\<close>

lemma loop_body_fst:
  "fst (loop_body fillers st words i kept) = fst (loop_body fillers st words i [])"
  by (simp add: loop_body_def Let_def)

lemma loop_body_snd:
  "snd (loop_body fillers st words i kept) = kept @ snd (loop_body fillers st words i [])"
  by (simp add: loop_body_def Let_def)

lemma loop_body_cursor: "i < fst (loop_body fillers st words i kept)"
  by (simp add: loop_body_def Let_def)

lemma scan_step:
  "i < length words \<Longrightarrow>
     scan fillers st words i kept =
       scan fillers st words (fst (loop_body fillers st words i kept))
         (snd (loop_body fillers st words i kept))"
  by (subst scan.simps) (simp add: case_prod_beta)

lemma scan_done: "\<not> i < length words \<Longrightarrow> scan fillers st words i kept = kept"
  by (subst scan.simps) simp

lemma scan_append: "scan fillers st words i kept = kept @ scan fillers st words i []"
proof (induction "length words - i" arbitrary: i kept rule: less_induct)
  case less
  show ?case
  proof (cases "i < length words")
    case False
    then show ?thesis by (simp add: scan_done)
  next
    case True
    let ?j = "fst (loop_body fillers st words i [])"
    let ?e = "snd (loop_body fillers st words i [])"
    have j: "length words - ?j < length words - i"
      using True loop_body_cursor [of i fillers st words "[]"] by arith
    have "scan fillers st words i kept = scan fillers st words ?j (kept @ ?e)"
      using True scan_step [of i words fillers st kept]
        loop_body_fst [of fillers st words i kept] loop_body_snd [of fillers st words i kept]
      by simp
    also have "\<dots> = (kept @ ?e) @ scan fillers st words ?j []"
      using less [OF j] .
    also have "\<dots> = kept @ (?e @ scan fillers st words ?j [])"
      by simp
    also have "?e @ scan fillers st words ?j [] = scan fillers st words ?j ?e"
      using less [OF j, of ?e] by simp
    also have "\<dots> = scan fillers st words i []"
      using True by (simp add: scan_step [of i words fillers st "[]"])
    finally show ?thesis .
  qed
qed

lemma reached_scan:
  "reached fillers st words i kept \<Longrightarrow>
     scan fillers st words 0 [] = scan fillers st words i kept"
proof (induction rule: reached.induct)
  case start
  show ?case by simp
next
  case (step i kept i' kept')
  then show ?case
    by (simp add: scan_step)
qed

text \<open>
  Where the cursor stands: every position is either reached by the cursor or jumped over
  by the step taken at an earlier position that the cursor reached, and such a step is
  a trigram or bigram match.
\<close>

lemma loop_body_jump:
  "j < i \<Longrightarrow> i < fst (loop_body fillers st words j kept) \<Longrightarrow> match_covers st words j i"
  by (auto simp: loop_body_def match_covers_def Let_def split: if_splits)

lemma cursor_cover:
  "i \<le> length words \<Longrightarrow>
     (\<exists>kept. reached fillers st words i kept)
     \<or> (\<exists>j kept. reached fillers st words j kept \<and> j < i \<and> j < length words
            \<and> i < fst (loop_body fillers st words j kept))"
proof (induction i)
  case 0
  show ?case
    using reached.start by blast
next
  case (Suc i)
  then have le: "i < length words" by simp
  have next_step: "(\<exists>kept'. reached fillers st words (Suc i) kept')
      \<or> (reached fillers st words j kept \<and> j < Suc i \<and> j < length words
            \<and> Suc i < fst (loop_body fillers st words j kept))"
    if r: "reached fillers st words j kept" and j: "j \<le> i" "j < length words"
      and past: "i < fst (loop_body fillers st words j kept)" for j kept
  proof (cases "fst (loop_body fillers st words j kept) = Suc i")
    case True
    then have "loop_body fillers st words j kept
        = (Suc i, snd (loop_body fillers st words j kept))"
      by (metis prod.collapse)
    from reached.step [OF r j(2) this] show ?thesis by blast
  next
    case False
    with past have "Suc i < fst (loop_body fillers st words j kept)" by simp
    with r j show ?thesis by simp
  qed
  from Suc.IH le consider
    (here) kept where "reached fillers st words i kept"
    | (past) j kept where "reached fillers st words j kept" "j < i" "j < length words"
        "i < fst (loop_body fillers st words j kept)"
    by auto
  then show ?case
  proof cases
    case here
    from next_step [OF here _ le loop_body_cursor] show ?thesis by blast
  next
    case past
    from next_step [OF past(1) _ past(3,4)] past(2) show ?thesis by auto
  qed
qed

lemma reached_trigram_kept:
  assumes "reached fillers st words i kept"
    and "i + 2 < length words"
    and "tri_at words i \<in> medical_phrases st"
  shows "\<exists>rest. scan fillers st words 0 [] =
           kept @ [strip_punct (words ! i), strip_punct (words ! (i + 1)),
                   strip_punct (words ! (i + 2))] @ rest"
proof -
  have body: "loop_body fillers st words i kept =
      (i + 3, kept @ [strip_punct (words ! i), strip_punct (words ! (i + 1)),
                       strip_punct (words ! (i + 2))])"
    using assms(2,3) by (simp add: loop_body_def)
  have "scan fillers st words 0 [] = scan fillers st words i kept"
    using reached_scan [OF assms(1)] .
  also have "\<dots> = scan fillers st words (i + 3)
      (kept @ [strip_punct (words ! i), strip_punct (words ! (i + 1)),
               strip_punct (words ! (i + 2))])"
    using assms(2) body by (simp add: scan_step)
  finally show ?thesis
    using scan_append [of fillers st words "i + 3"
      "kept @ [strip_punct (words ! i), strip_punct (words ! (i + 1)),
               strip_punct (words ! (i + 2))]"]
    by auto
qed

subsection \<open>Phrase protection\<close>

text \<open>
  C2, as stated: in a sentence with three consecutive words that form a trigram of
  \<^verbatim>\<open>medical_phrases\<close>, the three words survive. It fails for the vocabulary trained on
  \<open>heart rate is well heart rate is well\<close> and the sentence \<open>heart rate is well\<close>: the
  trigram \<open>heart rate is\<close> matches at the first word, the cursor moves to \<open>well\<close>, and
  \<open>well\<close>, the last word of the phrase \<open>rate is well\<close>, is dropped as a filler word.
\<close>

theorem trigram_overlap_counterexample:
  "train_worker first_run
      [\<lparr>file_name = ''a.txt'', content = Some ''heart rate is well heart rate is well''\<rparr>] True
     = (TrainingComplete, overlap_vocabulary)
   \<and> py_split (py_lower ''heart rate is well'') = [''heart'', ''rate'', ''is'', ''well'']
   \<and> ''rate is well'' \<in> medical_phrases overlap_vocabulary
   \<and> sentence_kept clean_filler_words overlap_vocabulary ''heart rate is well''
       = [''heart'', ''rate'', ''is'']
   \<and> clean_transcription overlap_vocabulary ''heart rate is well'' = ''Heart rate is.''"
proof -
  have "train_worker first_run
      [\<lparr>file_name = ''a.txt'', content = Some ''heart rate is well heart rate is well''\<rparr>] True
     = (TrainingComplete, overlap_vocabulary)"
    by code_simp
  moreover have "py_split (py_lower ''heart rate is well'') = [''heart'', ''rate'', ''is'', ''well'']"
    by (simp add: py_lower_def char_class_defs)
  moreover have "sentence_kept clean_filler_words overlap_vocabulary ''heart rate is well''
       = [''heart'', ''rate'', ''is'']"
    by (simp add: clean_defs char_class_defs scan.simps overlap_vocabulary_def)
  moreover have "clean_transcription overlap_vocabulary ''heart rate is well'' = ''Heart rate is.''"
    by (simp add: clean_defs char_class_defs scan.simps overlap_vocabulary_def)
  ultimately show ?thesis
    by (simp add: overlap_vocabulary_def)
qed

text \<open>
  C2, amended: in a sentence with three consecutive words that form a trigram of
  \<^verbatim>\<open>medical_phrases\<close>, the three words (lower-cased, punctuation stripped) follow each
  other in the kept words of the sentence, whatever the filler set contains, unless the
  loop, with its cursor at an earlier word, made a trigram or bigram match there that
  consumed the first word of the trigram.
\<close>

theorem trigram_kept_unless_consumed:
  assumes "words = py_split (py_lower sentence)"
    and "i + 2 < length words"
    and "tri_at words i \<in> medical_phrases st"
  shows "(\<exists>pre rest. sentence_kept fillers st sentence =
            pre @ [strip_punct (words ! i), strip_punct (words ! (i + 1)),
                   strip_punct (words ! (i + 2))] @ rest)
       \<or> (\<exists>j kept. reached fillers st words j kept \<and> match_covers st words j i)"
proof -
  have "i \<le> length words"
    using assms(2) by simp
  from cursor_cover [OF this, of fillers st] consider
    (here) kept where "reached fillers st words i kept"
    | (past) j kept where "reached fillers st words j kept" "j < i"
        "i < fst (loop_body fillers st words j kept)"
    by blast
  then show ?thesis
  proof cases
    case here
    from reached_trigram_kept [OF here assms(2,3)] show ?thesis
      unfolding sentence_kept_def assms(1) [symmetric] by blast
  next
    case past
    from loop_body_jump [OF past(2,3)] past(1) show ?thesis by blast
  qed
qed

theorem trigram_kept_unless_consumed_witness:
  "[''um,'', ''right'', ''heart'', ''failure''] = py_split (py_lower ''Um, right heart failure'')
   \<and> tri_at [''um,'', ''right'', ''heart'', ''failure''] 1 \<in> medical_phrases failure_vocabulary
   \<and> ''right'' \<in> clean_filler_words
   \<and> \<not> match_covers failure_vocabulary [''um,'', ''right'', ''heart'', ''failure''] 0 1
   \<and> (\<exists>pre rest.
         sentence_kept clean_filler_words failure_vocabulary ''Um, right heart failure''
           = pre @ [''right'', ''heart'', ''failure''] @ rest)"
proof -
  let ?ws = "[''um,'', ''right'', ''heart'', ''failure'']"
  have ws: "?ws = py_split (py_lower ''Um, right heart failure'')"
    by (simp add: py_lower_def char_class_defs)
  have l: "1 + 2 < length ?ws"
    by simp
  have t: "tri_at ?ws 1 \<in> medical_phrases failure_vocabulary"
    by (simp add: tri_at_def strip_punct_def strip_chars_def failure_vocabulary_def)
  have f: "''right'' \<in> clean_filler_words"
    by (simp add: clean_filler_words_def)
  have n0: "\<not> match_covers failure_vocabulary ?ws 0 1"
    by (simp add: match_covers_def tri_at_def bi_at_def strip_punct_def strip_chars_def
          failure_vocabulary_def)
  have n: "\<not> match_covers failure_vocabulary ?ws j 1" for j
  proof (cases j)
    case 0
    with n0 show ?thesis by simp
  next
    case (Suc k)
    then show ?thesis by (simp add: match_covers_def)
  qed
  have s: "[strip_punct (?ws ! 1), strip_punct (?ws ! (1 + 1)), strip_punct (?ws ! (1 + 2))]
      = [''right'', ''heart'', ''failure'']"
    by (simp add: strip_punct_def strip_chars_def)
  have "\<exists>pre rest.
         sentence_kept clean_filler_words failure_vocabulary ''Um, right heart failure''
           = pre @ [''right'', ''heart'', ''failure''] @ rest"
    using trigram_kept_unless_consumed [OF ws l t, of clean_filler_words] n
    unfolding s by blast
  with ws t f n0 show ?thesis
    by blast
qed

subsection \<open>The single-word step\<close>

text \<open>
  C7. At a cursor position where neither the trigram nor the bigram test succeeds, the
  word is kept iff it is in \<^verbatim>\<open>medical_terms\<close> or not in the filler set: the kept words
  of the loop continued from there are the ones kept so far, then this word or nothing,
  then what the loop keeps from the next position on.
\<close>

theorem single_word_fallback:
  assumes "i < length words"
    and "\<not> (i + 2 < length words \<and> tri_at words i \<in> medical_phrases st)"
    and "\<not> (i + 1 < length words
             \<and> (bi_at words i \<in> medical_terms st \<or> bi_at words i \<in> medical_phrases st))"
  shows "scan clean_filler_words st words i kept =
           kept @ (if strip_punct (words ! i) \<in> medical_terms st
                      \<or> strip_punct (words ! i) \<notin> clean_filler_words
                   then [strip_punct (words ! i)] else [])
             @ scan clean_filler_words st words (i + 1) []"
proof -
  let ?e = "if strip_punct (words ! i) \<in> medical_terms st
                      \<or> strip_punct (words ! i) \<notin> clean_filler_words
                   then [strip_punct (words ! i)] else []"
  have "loop_body clean_filler_words st words i kept = (i + 1, kept @ ?e)"
    using assms(2,3) by (auto simp: loop_body_def)
  then have "scan clean_filler_words st words i kept
      = scan clean_filler_words st words (i + 1) (kept @ ?e)"
    using assms(1) by (simp add: scan_step)
  then show ?thesis
    using scan_append [of clean_filler_words st words "i + 1" "kept @ ?e"] by simp
qed

theorem single_word_fallback_witness:
  "(0::nat) < length [''diagnosis'', ''um'']
   \<and> scan clean_filler_words prior_vocabulary [''diagnosis'', ''um''] 0 []
       = [''diagnosis''] @ scan clean_filler_words prior_vocabulary [''diagnosis'', ''um''] 1 []
   \<and> scan clean_filler_words prior_vocabulary [''diagnosis'', ''um''] 1 [''diagnosis'']
       = [''diagnosis'']"
proof -
  have e: "strip_punct ''diagnosis'' = ''diagnosis''" "strip_punct ''um'' = ''um''"
    by (simp_all add: strip_punct_def strip_chars_def)
  have b0: "\<not> (0 + 1 < length [''diagnosis'', ''um'']
             \<and> (bi_at [''diagnosis'', ''um''] 0 \<in> medical_terms prior_vocabulary
                 \<or> bi_at [''diagnosis'', ''um''] 0 \<in> medical_phrases prior_vocabulary))"
    by (simp add: bi_at_def e prior_vocabulary_def)
  have t0: "\<not> (0 + 2 < length [''diagnosis'', ''um'']
      \<and> tri_at [''diagnosis'', ''um''] 0 \<in> medical_phrases prior_vocabulary)"
    by simp
  have t1: "\<not> (1 + 2 < length [''diagnosis'', ''um'']
      \<and> tri_at [''diagnosis'', ''um''] 1 \<in> medical_phrases prior_vocabulary)"
    by simp
  have b1: "\<not> (1 + 1 < length [''diagnosis'', ''um'']
             \<and> (bi_at [''diagnosis'', ''um''] 1 \<in> medical_terms prior_vocabulary
                 \<or> bi_at [''diagnosis'', ''um''] 1 \<in> medical_phrases prior_vocabulary))"
    by simp
  have l0: "0 < length [''diagnosis'', ''um'']" and l1: "1 < length [''diagnosis'', ''um'']"
    by simp_all
  show ?thesis
    using single_word_fallback [OF l0 t0 b0, of "[]"]
      single_word_fallback [OF l1 t1 b1, of "[''diagnosis'']"]
    by (simp add: e prior_vocabulary_def clean_filler_words_def scan_done)
qed


subsection \<open>Words contain no blank: the two-word filler entries\<close>

lemma py_split_no_space: "w \<in> set (py_split s) \<Longrightarrow> c \<in> set w \<Longrightarrow> \<not> py_isspace c"
proof (induction s arbitrary: w rule: py_split.induct)
  case 1
  then show ?case by simp
next
  case (2 d ds)
  show ?case
  proof (cases "py_isspace d")
    case True
    with 2 show ?thesis by simp
  next
    case False
    with "2.prems" consider
      (head) "w = takeWhile (\<lambda>x. \<not> py_isspace x) (d # ds)"
      | (tail) "w \<in> set (py_split (dropWhile (\<lambda>x. \<not> py_isspace x) ds))"
      by auto
    then show ?thesis
    proof cases
      case head
      with "2.prems"(2) have "c \<in> set (takeWhile (\<lambda>x. \<not> py_isspace x) (d # ds))"
        by simp
      then show ?thesis
        by (rule set_takeWhileD [THEN conjunct2])
    next
      case tail
      with "2.IH"(2) [OF False] "2.prems"(2) show ?thesis by blast
    qed
  qed
qed

lemma strip_chars_subset: "set (strip_chars chars w) \<subseteq> set w"
proof -
  have "set (dropWhile P xs) \<subseteq> set xs" for P and xs :: string
    by (auto dest: set_dropWhileD)
  from this [of "\<lambda>c. c \<in> set chars" "rev (dropWhile (\<lambda>c. c \<in> set chars) w)"]
    this [of "\<lambda>c. c \<in> set chars" w]
  show ?thesis
    unfolding strip_chars_def by auto
qed

lemma blank_is_space: "py_isspace CHR '' ''"
  by (simp add: py_isspace_def)

lemma stripped_word_no_blank:
  "w \<in> set (py_split s) \<Longrightarrow> CHR '' '' \<notin> set (strip_punct w)"
  using py_split_no_space [of w s "CHR '' ''"] strip_chars_subset [of "''.,;!?''" w]
    blank_is_space
  by (auto simp: strip_punct_def)
lemma fillers_agree:
  assumes "CHR '' '' \<notin> set w"
  shows "w \<in> clean_filler_words \<longleftrightarrow> w \<in> single_word_fillers"
proof -
  have "w \<noteq> ''you know''" "w \<noteq> ''i mean''" "w \<noteq> ''sort of''" "w \<noteq> ''kind of''"
    using assms by auto
  then show ?thesis
    by (simp add: clean_filler_words_def single_word_fillers_def)
qed

lemma loop_body_fillers:
  assumes "i < length words" and "\<forall>w \<in> set words. CHR '' '' \<notin> set (strip_punct w)"
    and "\<And>w. CHR '' '' \<notin> set w \<Longrightarrow> w \<in> F1 \<longleftrightarrow> w \<in> F2"
  shows "loop_body F1 st words i kept = loop_body F2 st words i kept"
proof -
  have "CHR '' '' \<notin> set (strip_punct (words ! i))"
    using assms(1,2) by simp
  then have "strip_punct (words ! i) \<in> F1 \<longleftrightarrow> strip_punct (words ! i) \<in> F2"
    by (rule assms(3))
  then show ?thesis
    by (simp add: loop_body_def Let_def)
qed

lemma scan_fillers:
  assumes "\<forall>w \<in> set words. CHR '' '' \<notin> set (strip_punct w)"
    and "\<And>w. CHR '' '' \<notin> set w \<Longrightarrow> w \<in> F1 \<longleftrightarrow> w \<in> F2"
  shows "scan F1 st words i kept = scan F2 st words i kept"
proof (induction "length words - i" arbitrary: i kept rule: less_induct)
  case less
  show ?case
  proof (cases "i < length words")
    case False
    then show ?thesis by (simp add: scan_done)
  next
    case True
    have eq: "loop_body F1 st words i kept = loop_body F2 st words i kept"
      using True assms by (rule loop_body_fillers)
    have "length words - fst (loop_body F1 st words i kept) < length words - i"
      using True loop_body_cursor [of i F1 st words kept] by arith
    from less [OF this] show ?thesis
      using True by (simp add: scan_step eq)
  qed
qed

lemma sentence_kept_fillers:
  "sentence_kept clean_filler_words st s = sentence_kept single_word_fillers st s"
  unfolding sentence_kept_def
  by (rule scan_fillers) (auto simp: stripped_word_no_blank fillers_agree)

lemma cleaned_of_fillers:
  "cleaned_of clean_filler_words st ss = cleaned_of single_word_fillers st ss"
  by (induction ss) (simp_all add: sentence_kept_fillers split: list.splits)

text \<open>
  C9. A word compared at the single-word step contains no blank, so the entries
  \<open>you know\<close>, \<open>i mean\<close>, \<open>sort of\<close> and \<open>kind of\<close> never equal it: for every state and
  text, \<^verbatim>\<open>clean_transcription\<close> returns what the same function returns with a filler
  set that leaves these four entries out.
\<close>

theorem multi_word_fillers_inert:
  "clean_transcription st text = clean_with single_word_fillers st text"
  by (simp add: clean_transcription_def clean_with_def cleaned_of_fillers)

subsection \<open>What a kept word looks like\<close>

lemma isspace_lower: "py_isspace (lower_char c) = py_isspace c"
proof (cases "c \<in> set ascii_uppercase")
  case True
  then show ?thesis
    by (auto simp: py_isspace_def lower_char_def ascii_uppercase_def ascii_lowercase_def)
next
  case False
  then have "map_of (zip ascii_uppercase ascii_lowercase) c = None"
    by (simp add: ascii_uppercase_def ascii_lowercase_def)
  then show ?thesis
    by (simp add: lower_char_def)
qed

lemma py_split_lower: "py_split (py_lower s) = map py_lower (py_split s)"
proof (induction s rule: py_split.induct)
  case 1
  then show ?case by (simp add: py_lower_def)
next
  case (2 c cs)
  have comp: "(\<lambda>x. \<not> py_isspace x) \<circ> lower_char = (\<lambda>x. \<not> py_isspace x)"
    by (auto simp: isspace_lower)
  show ?case
  proof (cases "py_isspace c")
    case True
    with 2 show ?thesis
      by (simp add: py_lower_def isspace_lower)
  next
    case False
    with "2.IH"(2) show ?thesis
      by (simp add: py_lower_def isspace_lower takeWhile_map dropWhile_map comp)
  qed
qed

lemma drop_two: "i + 1 < length ws \<Longrightarrow> drop i ws = ws ! i # ws ! (i + 1) # drop (i + 2) ws"
  by (metis Cons_nth_drop_Suc Suc_eq_plus1 Suc_lessD add_2_eq_Suc')

lemma drop_three:
  "i + 2 < length ws \<Longrightarrow> drop i ws = ws ! i # ws ! (i + 1) # ws ! (i + 2) # drop (i + 3) ws"
proof -
  assume a: "i + 2 < length ws"
  then have "drop i ws = ws ! i # ws ! (i + 1) # drop (i + 2) ws"
    by (simp add: drop_two)
  moreover have "drop (i + 2) ws = ws ! (i + 2) # drop (i + 3) ws"
    using a Cons_nth_drop_Suc [of "i + 2" ws] by (simp add: numeral_3_eq_3)
  ultimately show ?thesis by simp
qed

lemma scan_subseq: "subseq (scan fillers st words i []) (map strip_punct (drop i words))"
proof (induction "length words - i" arbitrary: i rule: less_induct)
  case less
  show ?case
  proof (cases "i < length words")
    case False
    then show ?thesis by (simp add: scan_done)
  next
    case True
    let ?w = "\<lambda>k. strip_punct (words ! k)"
    have step: "scan fillers st words i [] =
            snd (loop_body fillers st words i [])
              @ scan fillers st words (fst (loop_body fillers st words i [])) []"
      using True scan_step [of i words fillers st "[]"] scan_append by metis
    have ih: "i < j \<Longrightarrow> subseq (scan fillers st words j []) (map strip_punct (drop j words))"
      for j using less [of j] True by simp
    consider (tri) "i + 2 < length words" "tri_at words i \<in> medical_phrases st"
      | (bi) "\<not> (i + 2 < length words \<and> tri_at words i \<in> medical_phrases st)"
             "i + 1 < length words"
             "bi_at words i \<in> medical_terms st \<or> bi_at words i \<in> medical_phrases st"
      | (single) "\<not> (i + 2 < length words \<and> tri_at words i \<in> medical_phrases st)"
             "\<not> (i + 1 < length words
                  \<and> (bi_at words i \<in> medical_terms st \<or> bi_at words i \<in> medical_phrases st))"
      by blast
    then show ?thesis
    proof cases
      case tri
      then have "loop_body fillers st words i [] = (i + 3, [?w i, ?w (i + 1), ?w (i + 2)])"
        by (simp add: loop_body_def)
      with step ih [of "i + 3"] drop_three [OF tri(1)] show ?thesis
        by simp
    next
      case bi
      then have "loop_body fillers st words i [] = (i + 2, [?w i, ?w (i + 1)])"
        by (auto simp: loop_body_def)
      with step ih [of "i + 2"] drop_two [OF bi(2)] show ?thesis
        by simp
    next
      case single
      then have "loop_body fillers st words i [] =
          (i + 1, if ?w i \<in> medical_terms st \<or> ?w i \<notin> fillers then [?w i] else [])"
        by (auto simp: loop_body_def)
      with step ih [of "i + 1"] Cons_nth_drop_Suc [OF True, symmetric] show ?thesis
        by (auto simp: list_emb_Cons)
    qed
  qed
qed

text \<open>
  C6, as stated: every kept word is reproduced verbatim. It fails for the text
  \<open>Severe Acute pain, today\<close>: the words \<open>Acute\<close> and \<open>pain,\<close>, kept by a bigram match,
  come out as \<open>acute\<close> and \<open>pain\<close>.
\<close>

theorem kept_words_verbatim_counterexample:
  "py_split ''Severe Acute pain, today'' = [''Severe'', ''Acute'', ''pain,'', ''today'']
   \<and> sentence_kept clean_filler_words prior_vocabulary ''Severe Acute pain, today''
       = [''severe'', ''acute'', ''pain'', ''today'']
   \<and> clean_transcription prior_vocabulary ''Severe Acute pain, today''
       = ''Severe acute pain today.''"
  by (simp add: clean_defs char_class_defs scan.simps prior_vocabulary_def)

text \<open>
  C6, amended: the kept words of a sentence are, in order, some of the words of the
  sentence, each lower-cased and with the characters \<open>. , ; ! ?\<close> stripped from both
  ends; it is this form that is compared and that is written out.
\<close>

theorem kept_words_normalised:
  "subseq (sentence_kept fillers st sentence)
     (map (\<lambda>w. strip_punct (py_lower w)) (py_split sentence))"
  using scan_subseq [of fillers st "py_split (py_lower sentence)" 0]
  by (simp add: sentence_kept_def py_split_lower comp_def)

subsection \<open>The tokens of a text\<close>

lemma az_word: "is_az c \<Longrightarrow> is_word_char c"
  by (auto simp: is_az_def is_word_char_def)

lemma backtrack_bounds: "backtrack s k = Some n \<Longrightarrow> 0 < n \<and> n \<le> k"
  by (induction k) (auto split: if_splits)

lemma backtrack_hit:
  "0 < k \<Longrightarrow> word_boundary (Some (s ! (k - 1))) (char_at s k) \<Longrightarrow> backtrack s k = Some k"
  by (cases k) simp_all

lemma backtrack_miss:
  "(\<And>j. j < k \<Longrightarrow> \<not> word_boundary (Some (s ! j)) (char_at s (Suc j))) \<Longrightarrow>
     backtrack s k = None"
  by (induction k) simp_all

lemma findall_tokens: "t \<in> set (findall prev s) \<Longrightarrow> is_token t"
proof (induction prev s arbitrary: t rule: findall.induct)
  case (1 prev)
  then show ?case by simp
next
  case (2 prev c cs)
  show ?case
  proof (cases "match_here prev (c # cs)")
    case None
    with 2 show ?thesis by simp
  next
    case (Some n)
    then have b: "0 < n" "n \<le> length (takeWhile is_az (c # cs))"
      using backtrack_bounds [of "c # cs" "length (takeWhile is_az (c # cs))" n]
      by (auto simp: match_here_def split: if_splits)
    have "take n (c # cs) = take n (takeWhile is_az (c # cs))"
      using b(2) by (metis takeWhile_eq_take take_take min.absorb1 min.commute)
    then have "set (take n (c # cs)) \<subseteq> set (takeWhile is_az (c # cs))"
      by (metis set_take_subset)
    then have "list_all is_az (take n (c # cs))"
      by (auto simp: list_all_iff dest: set_takeWhileD)
    moreover have "take n (c # cs) \<noteq> []"
      using b(1) by (cases n) simp_all
    ultimately have "is_token (take n (c # cs))"
      by (simp add: is_token_def)
    with 2 Some show ?thesis by auto
  qed
qed

lemma word_runs_az_skip: "\<not> is_word_char c \<Longrightarrow> word_runs_az (c # cs) = word_runs_az cs"
  by (simp add: word_runs_az_def)

lemma word_runs_az_reject:
  assumes "is_word_char c" and "x \<in> set (takeWhile is_word_char (c # cs))" and "\<not> is_az x"
  shows "word_runs_az (c # cs) = word_runs_az (dropWhile is_word_char cs)"
proof -
  have "\<not> list_all is_az (takeWhile is_word_char (c # cs))"
    using assms(2,3) by (auto simp: list_all_iff)
  then show ?thesis
    using assms(1) by (simp add: word_runs_az_def del: takeWhile.simps)
qed

lemma word_runs_az_accept:
  assumes "is_word_char c" and "list_all is_az (takeWhile is_word_char (c # cs))"
  shows "word_runs_az (c # cs) =
           takeWhile is_word_char (c # cs) # word_runs_az (dropWhile is_word_char cs)"
  using assms by (simp add: word_runs_az_def del: takeWhile.simps)

lemma char_at_run_end:
  "char_at s (length (takeWhile P s)) =
     (case dropWhile P s of [] \<Rightarrow> None | r # rs \<Rightarrow> Some r)"
proof -
  define n where "n = length (takeWhile P s)"
  define rest where "rest = dropWhile P s"
  have d: "rest = drop n s"
    unfolding rest_def n_def by (rule dropWhile_eq_drop)
  have "char_at s n = (case rest of [] \<Rightarrow> None | r # rs \<Rightarrow> Some r)"
  proof (cases rest)
    case Nil
    with d have "length s \<le> n" by simp
    with Nil show ?thesis by (simp add: char_at_def)
  next
    case (Cons r rs)
    with d have l: "n < length s"
      by (metis drop_all list.distinct(1) not_le)
    then have "s ! n = hd (drop n s)"
      by (simp add: hd_drop_conv_nth)
    with Cons d l show ?thesis by (simp add: char_at_def)
  qed
  then show ?thesis
    unfolding rest_def n_def .
qed

lemma run_nth: "j < length (takeWhile P s) \<Longrightarrow> P (s ! j)"
  by (metis nth_mem set_takeWhileD takeWhile_nth)

lemma match_here_char:
  "match_here prev (c # cs) =
     (if \<not> word_side prev \<and> is_az c
         \<and> (case dropWhile is_az (c # cs) of [] \<Rightarrow> True | r # rs \<Rightarrow> \<not> is_word_char r)
      then Some (length (takeWhile is_az (c # cs))) else None)"
proof -
  define s where "s = c # cs"
  define n where "n = length (takeWhile is_az s)"
  define rest where "rest = dropWhile is_az s"
  have mh: "match_here prev s = (if word_boundary prev (char_at s 0) then backtrack s n else None)"
    by (simp add: match_here_def n_def)
  have side0: "word_side (char_at s 0) = is_word_char c"
    by (simp add: char_at_def word_side_def s_def)
  have run_side: "word_side (Some (s ! j))" if "j < n" for j
    using run_nth [of j is_az s] that az_word by (simp add: word_side_def n_def)
  have end_side: "word_side (char_at s n)
      = (case rest of [] \<Rightarrow> False | r # rs \<Rightarrow> is_word_char r)"
    unfolding n_def rest_def char_at_run_end
    by (cases "dropWhile is_az s") (simp_all add: word_side_def del: dropWhile_eq_Nil_conv)
  have nle: "n \<le> length s"
    unfolding n_def by (rule length_takeWhile_le)
  have "match_here prev s =
     (if \<not> word_side prev \<and> is_az c
         \<and> (case rest of [] \<Rightarrow> True | r # rs \<Rightarrow> \<not> is_word_char r)
      then Some n else None)"
  proof (cases "is_az c")
    case False
    then have "n = 0" by (simp add: n_def s_def)
    with False mh show ?thesis by simp
  next
    case az: True
    then have wc: "is_word_char c" by (rule az_word)
    have npos: "0 < n" using az by (simp add: n_def s_def)
    show ?thesis
    proof (cases "word_side prev")
      case True
      with wc side0 mh show ?thesis
        by (simp add: word_boundary_def)
    next
      case prev: False
      then have b0: "word_boundary prev (char_at s 0)"
        using wc side0 by (simp add: word_boundary_def)
      show ?thesis
      proof (cases "word_side (char_at s n)")
        case False
        moreover have "word_side (Some (s ! (n - 1)))"
          using npos by (intro run_side) simp
        ultimately have "backtrack s n = Some n"
          using npos by (intro backtrack_hit) (simp_all add: word_boundary_def)
        moreover from False end_side
        have "case rest of [] \<Rightarrow> True | r # rs \<Rightarrow> \<not> is_word_char r"
          by (cases rest) simp_all
        ultimately show ?thesis
          using mh b0 prev az by simp
      next
        case e: True
        have "backtrack s n = None"
        proof (rule backtrack_miss)
          fix j assume j: "j < n"
          have "word_side (char_at s (Suc j))"
          proof (cases "Suc j < n")
            case True
            with nle have "Suc j < length s" by simp
            with run_side [OF True] show ?thesis
              by (simp add: char_at_def)
          next
            case False
            with j have "Suc j = n" by simp
            with e show ?thesis by simp
          qed
          with run_side [OF j] show "\<not> word_boundary (Some (s ! j)) (char_at s (Suc j))"
            by (simp add: word_boundary_def)
        qed
        moreover from e end_side
        have "\<not> (case rest of [] \<Rightarrow> True | r # rs \<Rightarrow> \<not> is_word_char r)"
          by (cases rest) simp_all
        ultimately show ?thesis
          using mh b0 by simp
      qed
    qed
  qed
  then show ?thesis
    unfolding rest_def n_def s_def .
qed


lemma run_agree:
  assumes "case dropWhile is_az s of [] \<Rightarrow> True | r # rs \<Rightarrow> \<not> is_word_char r"
  shows "takeWhile is_word_char s = takeWhile is_az s"
    and "dropWhile is_word_char s = dropWhile is_az s"
proof -
  define run where "run = takeWhile is_az s"
  define rest where "rest = dropWhile is_az s"
  have s: "s = run @ rest"
    by (simp add: run_def rest_def)
  have run: "\<And>x. x \<in> set run \<Longrightarrow> is_word_char x"
    unfolding run_def by (auto dest: set_takeWhileD az_word)
  have rest: "takeWhile is_word_char rest = []" "dropWhile is_word_char rest = rest"
    using assms unfolding rest_def [symmetric] by (cases rest; simp)+
  have "takeWhile is_word_char (run @ rest) = run"
    using run rest(1) by (simp add: takeWhile_append2)
  then have t: "takeWhile is_word_char s = run"
    by (simp only: s [symmetric])
  have "dropWhile is_word_char (run @ rest) = rest"
    using run rest(2) by (simp add: dropWhile_append2)
  then have d: "dropWhile is_word_char s = rest"
    by (simp only: s [symmetric])
  from t show "takeWhile is_word_char s = takeWhile is_az s"
    by (simp only: run_def)
  from d show "dropWhile is_word_char s = dropWhile is_az s"
    by (simp only: rest_def)
qed

lemma run_spoiled:
  assumes "dropWhile is_az s = r # rs" and "is_word_char r"
  shows "r \<in> set (takeWhile is_word_char s)" and "\<not> is_az r"
proof -
  define run where "run = takeWhile is_az s"
  have s: "s = run @ r # rs"
    using assms(1) unfolding run_def by (metis takeWhile_dropWhile_id)
  have run: "\<And>x. x \<in> set run \<Longrightarrow> is_word_char x"
    unfolding run_def by (auto dest: set_takeWhileD az_word)
  have "takeWhile is_word_char (run @ r # rs) = run @ takeWhile is_word_char (r # rs)"
    using run by (simp add: takeWhile_append2)
  with assms(2) show "r \<in> set (takeWhile is_word_char s)"
    unfolding s by simp
  show "\<not> is_az r"
    using hd_dropWhile [of is_az s] assms(1) by simp
qed

lemma findall_runs:
  "findall prev s = word_runs_az (if word_side prev then dropWhile is_word_char s else s)"
proof (induction prev s rule: findall.induct)
  case (1 prev)
  show ?case by (simp add: word_runs_az_def)
next
  case (2 prev c cs)
  define s where "s = c # cs"
  define n where "n = length (takeWhile is_az s)"
  define rest where "rest = dropWhile is_az s"
  define ok where "ok \<longleftrightarrow> (case rest of [] \<Rightarrow> True | r # rs \<Rightarrow> \<not> is_word_char r)"
  have m: "match_here prev s = (if \<not> word_side prev \<and> is_az c \<and> ok then Some n else None)"
    unfolding s_def n_def rest_def ok_def by (rule match_here_char)
  have step: "findall prev s =
      (case match_here prev s of
         None \<Rightarrow> findall (Some c) cs
       | Some k \<Rightarrow> take k s # findall (Some (s ! (k - 1))) (drop k s))"
    unfolding s_def by simp
  have goal: "findall prev s =
      word_runs_az (if word_side prev then dropWhile is_word_char s else s)"
  proof (cases "\<not> word_side prev \<and> is_az c \<and> ok")
    case True
    then have prev: "\<not> word_side prev" and az: "is_az c" and ok: ok by simp_all
    have wc: "is_word_char c" using az by (rule az_word)
    have mm: "match_here prev (c # cs) = Some n"
      using m True by (simp add: s_def)
    have npos: "0 < n" using az by (simp add: n_def s_def)
    have "is_az (s ! (n - 1))"
      using npos run_nth [of "n - 1" is_az s] by (simp add: n_def)
    then have side: "word_side (Some ((c # cs) ! (n - 1)))"
      using az_word by (simp add: word_side_def s_def)
    have tk: "take n s = takeWhile is_az s"
      unfolding n_def by (rule takeWhile_eq_take [symmetric])
    have dr: "drop n s = rest"
      unfolding n_def rest_def by (rule dropWhile_eq_drop [symmetric])
    have agree: "takeWhile is_word_char s = takeWhile is_az s"
      "dropWhile is_word_char s = rest"
      using ok run_agree [of s] unfolding ok_def rest_def by simp_all
    have rest_id: "dropWhile is_word_char rest = rest"
      using ok unfolding ok_def by (cases rest) simp_all
    have "findall (Some ((c # cs) ! (n - 1))) (drop n (c # cs))
        = word_runs_az (dropWhile is_word_char (drop n (c # cs)))"
      using "2.IH"(2) [OF mm] side by simp
    then have ih: "findall (Some (s ! (n - 1))) (drop n s) = word_runs_az rest"
      using dr rest_id by (simp add: s_def)
    have "list_all is_az (takeWhile is_word_char s)"
      unfolding agree(1) by (auto simp: list_all_iff dest: set_takeWhileD)
    then have "word_runs_az s = takeWhile is_word_char s # word_runs_az (dropWhile is_word_char cs)"
      unfolding s_def using wc by (intro word_runs_az_accept)
    moreover have "dropWhile is_word_char cs = rest"
      using agree(2) wc by (simp add: s_def)
    ultimately have "word_runs_az s = takeWhile is_az s # word_runs_az rest"
      using agree(1) by simp
    moreover have "findall prev s = take n s # findall (Some (s ! (n - 1))) (drop n s)"
      using step m True by simp
    ultimately show ?thesis
      using prev ih tk by simp
  next
    case False
    then have mm: "match_here prev (c # cs) = None"
      using m by (simp add: s_def)
    have "findall prev s = findall (Some c) cs"
      using step m False by simp
    also have "\<dots> = word_runs_az (if is_word_char c then dropWhile is_word_char cs else cs)"
      using "2.IH"(1) [OF mm] by (simp add: word_side_def)
    finally have f: "findall prev s =
        word_runs_az (if is_word_char c then dropWhile is_word_char cs else cs)" .
    show ?thesis
    proof (cases "word_side prev")
      case True
      with f show ?thesis
        by (simp add: s_def word_runs_az_skip)
    next
      case prev: False
      show ?thesis
      proof (cases "is_word_char c")
        case nw: False
        with f prev show ?thesis
          by (simp add: s_def word_runs_az_skip)
      next
        case wc: True
        have "\<exists>x \<in> set (takeWhile is_word_char s). \<not> is_az x"
        proof (cases "is_az c")
          case False
          with wc show ?thesis by (auto simp: s_def)
        next
          case True
          with False prev have "\<not> ok" by simp
          then obtain r rs where r: "rest = r # rs" "is_word_char r"
            unfolding ok_def by (cases rest) auto
          from run_spoiled [of s r rs] r show ?thesis
            unfolding rest_def by blast
        qed
        then obtain x where "x \<in> set (takeWhile is_word_char (c # cs))" "\<not> is_az x"
          unfolding s_def by blast
        with wc have "word_runs_az (c # cs) = word_runs_az (dropWhile is_word_char cs)"
          by (intro word_runs_az_reject)
        with f prev wc show ?thesis
          by (simp add: s_def)
      qed
    qed
  qed
  then show ?case
    unfolding s_def .
qed

text \<open>
  C4, as stated: the tokens are exactly the maximal runs of alphabetic characters of the
  lower-cased text, a run of letters next to a digit included. It fails for
  \<open>Take 5mg daily\<close>: the pattern asks for a word boundary on both sides, and there is
  none between \<open>5\<close> and \<open>mg\<close>, so \<open>mg\<close> is not a token.
\<close>

theorem tokenize_alphabetic_runs_counterexample:
  "tokenize ''Take 5mg daily'' = [''take'', ''daily'']
   \<and> alphabetic_runs ''Take 5mg daily'' = [''take'', ''mg'', ''daily'']"
  by (simp add: train_defs char_class_defs alphabetic_runs_def is_alpha_def)

text \<open>
  C4, amended: the tokens of a document are exactly the maximal runs of word characters
  (letters, digits, underscore) of the lower-cased text that consist of letters only;
  all other characters are discarded, and so is a run of letters that touches a digit or
  an underscore.
\<close>

theorem tokenize_letter_words: "tokenize text = letter_words text"
  using findall_runs [of None "py_lower text"]
  by (simp add: tokenize_def letter_words_def word_side_def)

subsection \<open>The vocabulary of a training run\<close>

lemma corpus_texts_simps:
  "corpus_texts [] = []"
  "content f = None \<Longrightarrow> corpus_texts (f # fs) = corpus_texts fs"
  "content f = Some text \<Longrightarrow> corpus_texts (f # fs) = text # corpus_texts fs"
  by (simp_all add: corpus_texts_def List.map_filter_simps)

lemma process_files_corpus:
  "process_files files (ws, bs, ts) =
     (ws @ corpus_words files, bs @ corpus_bigrams files, ts @ corpus_trigrams files)"
proof (induction files arbitrary: ws bs ts)
  case Nil
  show ?case
    by (simp add: corpus_words_def corpus_bigrams_def corpus_trigrams_def corpus_texts_simps)
next
  case (Cons f fs)
  show ?case
  proof (cases "content f")
    case None
    with Cons show ?thesis
      by (simp add: corpus_words_def corpus_bigrams_def corpus_trigrams_def corpus_texts_simps)
  next
    case (Some t)
    with Cons show ?thesis
      by (simp add: corpus_words_def corpus_bigrams_def corpus_trigrams_def corpus_texts_simps
            Let_def)
  qed
qed

lemma counter_items_filter:
  "set (map fst (filter (\<lambda>(x, n). P x n) (counter_items xs)))
     = {x \<in> set xs. P x (count_list xs x)}"
proof -
  have "x \<in> fst ` {y \<in> (\<lambda>x. (x, count_list xs x)) ` set xs. case y of (x, n) \<Rightarrow> P x n}"
    if "x \<in> set xs" "P x (count_list xs x)" for x
    using that by (intro image_eqI [of _ _ "(x, count_list xs x)"]) auto
  then show ?thesis
    by (auto simp: counter_items_def)
qed

lemma train_worker_vocabulary:
  assumes "text_files \<noteq> []"
  shows "medical_terms (snd (train_worker st text_files disk_ok)) =
           {w \<in> set (corpus_words text_files).
              3 \<le> count_list (corpus_words text_files) w \<and> 3 < length w
              \<and> w \<notin> train_filler_words}"
    and "medical_phrases (snd (train_worker st text_files disk_ok)) =
           {p \<in> set (corpus_bigrams text_files). 2 \<le> count_list (corpus_bigrams text_files) p}
           \<union> {p \<in> set (corpus_trigrams text_files).
                 2 \<le> count_list (corpus_trigrams text_files) p}"
  using assms
  by (simp_all add: train_worker_def process_files_corpus [of _ "[]" "[]" "[]", simplified]
        Let_def save_medical_database_def counter_items_filter del: set_filter set_map)

lemma count_ge_in_set: "0 < n \<Longrightarrow> n \<le> count_list xs x \<Longrightarrow> x \<in> set xs"
  by (metis count_list_0_iff not_le)

lemma tokenize_tokens: "t \<in> set (tokenize text) \<Longrightarrow> is_token t"
  unfolding tokenize_def by (rule findall_tokens)

lemma token_no_blank: "is_token t \<Longrightarrow> count_list t CHR '' '' = 0"
  by (auto simp: is_token_def list_all_iff is_az_def ascii_lowercase_def count_list_0_iff)

lemma bigrams_shape:
  assumes "p \<in> set (bigrams ws)"
  shows "\<exists>a b. a \<in> set ws \<and> b \<in> set ws \<and> p = a @ '' '' @ b"
proof -
  from assms obtain i where "i < length ws - 1" "p = ws ! i @ '' '' @ ws ! (i + 1)"
    by (auto simp: bigrams_def)
  then show ?thesis
    by (intro exI [of _ "ws ! i"] exI [of _ "ws ! (i + 1)"]) simp
qed

lemma trigrams_shape:
  assumes "p \<in> set (trigrams ws)"
  shows "\<exists>a b c. a \<in> set ws \<and> b \<in> set ws \<and> c \<in> set ws \<and> p = a @ '' '' @ b @ '' '' @ c"
proof -
  from assms obtain i where "i < length ws - 2"
    "p = ws ! i @ '' '' @ ws ! (i + 1) @ '' '' @ ws ! (i + 2)"
    by (auto simp: trigrams_def)
  then show ?thesis
    by (intro exI [of _ "ws ! i"] exI [of _ "ws ! (i + 1)"] exI [of _ "ws ! (i + 2)"]) simp
qed

lemma corpus_words_tokens: "t \<in> set (corpus_words files) \<Longrightarrow> is_token t"
  by (auto simp: corpus_words_def dest: tokenize_tokens)

lemma corpus_bigrams_shape:
  assumes "p \<in> set (corpus_bigrams files)"
  shows "\<exists>a b. is_token a \<and> is_token b \<and> p = a @ '' '' @ b"
proof -
  from assms obtain t where "p \<in> set (bigrams (tokenize t))"
    by (auto simp: corpus_bigrams_def)
  from bigrams_shape [OF this] obtain a b
    where "a \<in> set (tokenize t)" "b \<in> set (tokenize t)" "p = a @ '' '' @ b"
    by blast
  then show ?thesis
    using tokenize_tokens by blast
qed

lemma corpus_trigrams_shape:
  assumes "p \<in> set (corpus_trigrams files)"
  shows "\<exists>a b c. is_token a \<and> is_token b \<and> is_token c \<and> p = a @ '' '' @ b @ '' '' @ c"
proof -
  from assms obtain t where "p \<in> set (trigrams (tokenize t))"
    by (auto simp: corpus_trigrams_def)
  from trigrams_shape [OF this] obtain a b c
    where "a \<in> set (tokenize t)" "b \<in> set (tokenize t)" "c \<in> set (tokenize t)"
      "p = a @ '' '' @ b @ '' '' @ c"
    by blast
  then show ?thesis
    using tokenize_tokens by blast
qed

lemma bigram_blanks:
  "is_token a \<Longrightarrow> is_token b \<Longrightarrow> count_list (a @ '' '' @ b) CHR '' '' = 1"
  by (simp add: token_no_blank)

lemma trigram_blanks:
  "is_token a \<Longrightarrow> is_token b \<Longrightarrow> is_token c \<Longrightarrow>
     count_list (a @ '' '' @ b @ '' '' @ c) CHR '' '' = 2"
  by (simp add: token_no_blank)

lemma train_chest_corpus:
  "train_worker first_run chest_corpus True = (TrainingComplete, chest_vocabulary)"
  by code_simp

text \<open>
  C5. After a training run on a non-empty list of files, a string is in
  \<^verbatim>\<open>medical_terms\<close> iff it occurs at least 3 times among the words of the corpus, is
  longer than 3 characters and is not in the filler set of training; a bigram of two
  tokens is in \<^verbatim>\<open>medical_phrases\<close> iff it occurs at least twice among the bigrams of
  the corpus, and a trigram of three tokens iff it occurs at least twice among the
  trigrams.
\<close>

theorem training_thresholds:
  assumes "text_files \<noteq> []"
  shows "(w \<in> medical_terms (snd (train_worker st text_files disk_ok)) \<longleftrightarrow>
            3 \<le> count_list (corpus_words text_files) w \<and> 3 < length w
            \<and> w \<notin> train_filler_words)
       \<and> (is_token a \<and> is_token b \<longrightarrow>
            (a @ '' '' @ b \<in> medical_phrases (snd (train_worker st text_files disk_ok)) \<longleftrightarrow>
               2 \<le> count_list (corpus_bigrams text_files) (a @ '' '' @ b)))
       \<and> (is_token a \<and> is_token b \<and> is_token c \<longrightarrow>
            (a @ '' '' @ b @ '' '' @ c
               \<in> medical_phrases (snd (train_worker st text_files disk_ok)) \<longleftrightarrow>
               2 \<le> count_list (corpus_trigrams text_files) (a @ '' '' @ b @ '' '' @ c)))"
proof (intro conjI impI)
  show "w \<in> medical_terms (snd (train_worker st text_files disk_ok)) \<longleftrightarrow>
            3 \<le> count_list (corpus_words text_files) w \<and> 3 < length w
            \<and> w \<notin> train_filler_words"
    using count_ge_in_set [of 3 "corpus_words text_files" w]
    by (auto simp: train_worker_vocabulary(1) [OF assms])
next
  assume tok: "is_token a \<and> is_token b"
  let ?p = "a @ '' '' @ b"
  have "?p \<notin> set (corpus_trigrams text_files)"
  proof
    assume "?p \<in> set (corpus_trigrams text_files)"
    from corpus_trigrams_shape [OF this] obtain x y z
      where "is_token x" "is_token y" "is_token z" "?p = x @ '' '' @ y @ '' '' @ z"
      by blast
    then have "count_list ?p CHR '' '' = 2"
      using trigram_blanks [of x y z] by (simp only:)
    moreover have "count_list ?p CHR '' '' = 1"
      using tok by (intro bigram_blanks) simp_all
    ultimately show False by simp
  qed
  then show "?p \<in> medical_phrases (snd (train_worker st text_files disk_ok)) \<longleftrightarrow>
               2 \<le> count_list (corpus_bigrams text_files) ?p"
    using count_ge_in_set [of 2 "corpus_bigrams text_files" ?p]
    by (auto simp: train_worker_vocabulary(2) [OF assms])
next
  assume tok: "is_token a \<and> is_token b \<and> is_token c"
  let ?p = "a @ '' '' @ b @ '' '' @ c"
  have "?p \<notin> set (corpus_bigrams text_files)"
  proof
    assume "?p \<in> set (corpus_bigrams text_files)"
    from corpus_bigrams_shape [OF this] obtain x y
      where "is_token x" "is_token y" "?p = x @ '' '' @ y"
      by blast
    then have "count_list ?p CHR '' '' = 1"
      using bigram_blanks [of x y] by (simp only:)
    moreover have "count_list ?p CHR '' '' = 2"
      using tok by (intro trigram_blanks) simp_all
    ultimately show False by simp
  qed
  then show "?p \<in> medical_phrases (snd (train_worker st text_files disk_ok)) \<longleftrightarrow>
               2 \<le> count_list (corpus_trigrams text_files) ?p"
    using count_ge_in_set [of 2 "corpus_trigrams text_files" ?p]
    by (auto simp: train_worker_vocabulary(2) [OF assms])
qed

theorem training_thresholds_witness:
  "chest_corpus \<noteq> []
   \<and> is_token ''acute'' \<and> is_token ''chest'' \<and> is_token ''pain''
   \<and> count_list (corpus_words chest_corpus) ''acute'' = 3
   \<and> ''acute'' \<in> medical_terms (snd (train_worker first_run chest_corpus True))
   \<and> count_list (corpus_words chest_corpus) ''chest'' = 2
   \<and> ''chest'' \<notin> medical_terms (snd (train_worker first_run chest_corpus True))
   \<and> count_list (corpus_bigrams chest_corpus) ''chest pain'' = 2
   \<and> ''chest pain'' \<in> medical_phrases (snd (train_worker first_run chest_corpus True))
   \<and> count_list (corpus_bigrams chest_corpus) ''pain acute'' = 1
   \<and> ''pain acute'' \<notin> medical_phrases (snd (train_worker first_run chest_corpus True))
   \<and> count_list (corpus_trigrams chest_corpus) ''acute chest pain'' = 2
   \<and> ''acute chest pain'' \<in> medical_phrases (snd (train_worker first_run chest_corpus True))"
proof -
  have ne: "chest_corpus \<noteq> []"
    by (simp add: chest_corpus_def)
  have tok: "is_token ''acute''" "is_token ''chest''" "is_token ''pain''"
    by (simp_all add: is_token_def is_az_def ascii_lowercase_def)
  have w: "count_list (corpus_words chest_corpus) ''acute'' = 3"
    "count_list (corpus_words chest_corpus) ''chest'' = 2"
    by code_simp+
  have b: "count_list (corpus_bigrams chest_corpus) ''chest pain'' = 2"
    "count_list (corpus_bigrams chest_corpus) ''pain acute'' = 1"
    by code_simp+
  have t: "count_list (corpus_trigrams chest_corpus) ''acute chest pain'' = 2"
    by code_simp
  have f: "''acute'' \<notin> train_filler_words"
    by (simp add: train_filler_words_def)
  show ?thesis
    using training_thresholds [OF ne, of "''acute''" first_run True "''chest''" "''pain''" "''x''"]
      training_thresholds [OF ne, of "''chest''" first_run True "''pain''" "''acute''" "''x''"]
      training_thresholds [OF ne, of "''x''" first_run True "''acute''" "''chest''" "''pain''"]
      ne tok w b t f
    by simp
qed

text \<open>
  C10. After a training run on a non-empty list of files, every element of
  \<^verbatim>\<open>medical_terms\<close> is a token (non-empty, letters \<open>a\<close> to \<open>z\<close> only) and has no
  blank; every element of \<^verbatim>\<open>medical_phrases\<close> is two or three tokens joined by single
  blanks, and so has a blank; the two sets are disjoint.
\<close>

theorem trained_vocabulary_shape:
  assumes "text_files \<noteq> []"
  shows "(\<forall>t \<in> medical_terms (snd (train_worker st text_files disk_ok)).
            is_token t \<and> CHR '' '' \<notin> set t)
       \<and> (\<forall>p \<in> medical_phrases (snd (train_worker st text_files disk_ok)).
            CHR '' '' \<in> set p
            \<and> ((\<exists>a b. is_token a \<and> is_token b \<and> p = a @ '' '' @ b)
               \<or> (\<exists>a b c. is_token a \<and> is_token b \<and> is_token c
                     \<and> p = a @ '' '' @ b @ '' '' @ c)))
       \<and> medical_terms (snd (train_worker st text_files disk_ok))
           \<inter> medical_phrases (snd (train_worker st text_files disk_ok)) = {}"
proof -
  let ?st = "snd (train_worker st text_files disk_ok)"
  have terms: "is_token t \<and> CHR '' '' \<notin> set t" if "t \<in> medical_terms ?st" for t
  proof -
    from that have "is_token t"
      by (auto simp: train_worker_vocabulary(1) [OF assms] dest: corpus_words_tokens)
    then show ?thesis
      using token_no_blank [of t] by (simp add: count_list_0_iff)
  qed
  have phrases: "CHR '' '' \<in> set p
            \<and> ((\<exists>a b. is_token a \<and> is_token b \<and> p = a @ '' '' @ b)
               \<or> (\<exists>a b c. is_token a \<and> is_token b \<and> is_token c
                     \<and> p = a @ '' '' @ b @ '' '' @ c))"
    if "p \<in> medical_phrases ?st" for p
  proof -
    from that consider "p \<in> set (corpus_bigrams text_files)"
      | "p \<in> set (corpus_trigrams text_files)"
      by (auto simp: train_worker_vocabulary(2) [OF assms])
    then show ?thesis
    proof cases
      case 1
      from corpus_bigrams_shape [OF this] obtain a b
        where ab: "is_token a" "is_token b" "p = a @ '' '' @ b" by blast
      then have "CHR '' '' \<in> set p" by simp
      with ab show ?thesis by blast
    next
      case 2
      from corpus_trigrams_shape [OF this] obtain a b c
        where abc: "is_token a" "is_token b" "is_token c" "p = a @ '' '' @ b @ '' '' @ c"
        by blast
      then have "CHR '' '' \<in> set p" by simp
      with abc show ?thesis by blast
    qed
  qed
  have "medical_terms ?st \<inter> medical_phrases ?st = {}"
    using terms phrases by blast
  with terms phrases show ?thesis
    by blast
qed

theorem trained_vocabulary_shape_witness:
  "chest_corpus \<noteq> []
   \<and> snd (train_worker first_run chest_corpus True) = chest_vocabulary
   \<and> ''acute'' \<in> medical_terms chest_vocabulary
   \<and> is_token ''acute'' \<and> CHR '' '' \<notin> set ''acute''
   \<and> ''chest pain'' \<in> medical_phrases chest_vocabulary
   \<and> CHR '' '' \<in> set ''chest pain''
   \<and> ((\<exists>a b. is_token a \<and> is_token b \<and> ''chest pain'' = a @ '' '' @ b)
       \<or> (\<exists>a b c. is_token a \<and> is_token b \<and> is_token c
             \<and> ''chest pain'' = a @ '' '' @ b @ '' '' @ c))
   \<and> medical_terms chest_vocabulary \<inter> medical_phrases chest_vocabulary = {}"
proof -
  have ne: "chest_corpus \<noteq> []"
    by (simp add: chest_corpus_def)
  have r: "snd (train_worker first_run chest_corpus True) = chest_vocabulary"
    by (simp add: train_chest_corpus)
  have t: "''acute'' \<in> medical_terms chest_vocabulary"
    by (simp add: chest_vocabulary_def)
  have p: "''chest pain'' \<in> medical_phrases chest_vocabulary"
    by (simp add: chest_vocabulary_def)
  show ?thesis
    using trained_vocabulary_shape [OF ne, of first_run True] ne t p
    unfolding r by blast
qed

end
